theory Spec2Isabelle
  imports Complex_Main "HOL-Library.AList" "HOL-Library.Multiset"
begin

section \<open>JavaScript numbers\<close>

text \<open>
  Every \<^verbatim>\<open>number\<close> of the source is an IEEE 754 binary64 value. The finite ones are
  rationals, and each arithmetic operator of the source returns the exact result rounded to
  the nearest binary64 value, ties to the even significand. \<open>fl\<close> is that rounding (53
  significant bits, gradual underflow below \<open>2 ^ -1022\<close>). Overflow to an infinity and
  NaN are not values of this model: the image operators only see channel values in
  \<open>[0, 255]\<close> and slider values in \<open>[-100, 200]\<close>, where neither can arise except
  through a division by zero, which is modelled where the source can reach one.
\<close>

function flog2 :: "int \<Rightarrow> int" where
  "flog2 n = (if n < 2 then 0 else flog2 (n div 2) + 1)"
  by pat_completeness auto
termination by (relation "measure nat") auto

declare flog2.simps [simp del]

definition ilog2 :: "rat \<Rightarrow> int" where
  "ilog2 q = (if 1 \<le> q then flog2 \<lfloor>q\<rfloor>
     else (let k = flog2 \<lfloor>1 / q\<rfloor> in if q * 2 ^ nat k = 1 then - k else - k - 1))"

definition rhe :: "rat \<Rightarrow> int" where
  "rhe q = (let f = \<lfloor>q\<rfloor>; d = q - of_int f in
     if d < 1 / 2 then f else if 1 / 2 < d then f + 1 else if even f then f else f + 1)"

definition pow2 :: "int \<Rightarrow> rat" where
  "pow2 e = (if 0 \<le> e then 2 ^ nat e else 1 / 2 ^ nat (- e))"

definition fl :: "rat \<Rightarrow> rat" where
  "fl q = (if q = 0 then 0 else
     (let p = max (ilog2 \<bar>q\<bar> - 52) (- 1074) in of_int (rhe (q / pow2 p)) * pow2 p))"

definition fadd :: "rat \<Rightarrow> rat \<Rightarrow> rat" where
  "fadd a b = fl (a + b)"

definition fsub :: "rat \<Rightarrow> rat \<Rightarrow> rat" where
  "fsub a b = fl (a - b)"

definition fmul :: "rat \<Rightarrow> rat \<Rightarrow> rat" where
  "fmul a b = fl (a * b)"

definition fdiv :: "rat \<Rightarrow> rat \<Rightarrow> rat" where
  "fdiv a b = fl (a / b)"

text \<open>
  A store into a \<^verbatim>\<open>Uint8ClampedArray\<close> (the \<^verbatim>\<open>data\<close> of an \<^verbatim>\<open>ImageData\<close>) converts
  the number with ToUint8Clamp: clamp to \<open>[0, 255]\<close>, then round to the nearest integer,
  ties to even.
\<close>

definition toUint8Clamp :: "rat \<Rightarrow> nat" where
  "toUint8Clamp v = (if v \<le> 0 then 0 else if 255 \<le> v then 255 else nat (rhe v))"

record ImageData =
  width :: nat
  height :: nat
  data :: "nat list"

definition wellFormed :: "ImageData \<Rightarrow> bool" where
  "wellFormed img \<longleftrightarrow>
     length (data img) = 4 * width img * height img \<and> list_all (\<lambda>c. c \<le> 255) (data img)"

datatype error = RangeError | LoadError | ContextError

section \<open>Box blur\<close>

text \<open>
  \<^verbatim>\<open>boxBlur(src, dst, w, h, r)\<close>. The accumulators of one window are
  \<open>(r_acc, g_acc, b_acc, a_acc, count)\<close>; \<open>sampleCount\<close> reads the last. The radius is an integer: the only caller,
  \<^verbatim>\<open>applyHaze\<close>, passes \<^verbatim>\<open>Math.floor(Math.max(1, ...))\<close>.
\<close>

type_synonym acc = "rat \<times> rat \<times> rat \<times> rat \<times> nat"

definition sampleCount :: "acc \<Rightarrow> nat" where
  "sampleCount a = snd (snd (snd (snd a)))"

definition addSample :: "nat list \<Rightarrow> int \<Rightarrow> acc \<Rightarrow> acc" where
  "addSample tempSrc src_idx a =
     (case a of (r_acc, g_acc, b_acc, a_acc, n) \<Rightarrow>
        (fadd r_acc (of_nat (tempSrc ! nat src_idx)),
         fadd g_acc (of_nat (tempSrc ! nat (src_idx + 1))),
         fadd b_acc (of_nat (tempSrc ! nat (src_idx + 2))),
         fadd a_acc (of_nat (tempSrc ! nat (src_idx + 3))),
         n + 1))"

definition hStep :: "nat list \<Rightarrow> int \<Rightarrow> int \<Rightarrow> int \<Rightarrow> int \<Rightarrow> acc \<Rightarrow> acc" where
  "hStep tempSrc w y x i a =
     (let xi = x + i in
      if 0 \<le> xi \<and> xi < w then addSample tempSrc ((y * w + xi) * 4) a else a)"

definition hWindow :: "nat list \<Rightarrow> int \<Rightarrow> int \<Rightarrow> int \<Rightarrow> int \<Rightarrow> acc" where
  "hWindow tempSrc w r y x = fold (hStep tempSrc w y x) [- r..r] (0, 0, 0, 0, 0)"

definition vStep :: "nat list \<Rightarrow> int \<Rightarrow> int \<Rightarrow> int \<Rightarrow> int \<Rightarrow> int \<Rightarrow> acc \<Rightarrow> acc" where
  "vStep tempSrc w h x y i a =
     (let yi = y + i in
      if 0 \<le> yi \<and> yi < h then addSample tempSrc ((yi * w + x) * 4) a else a)"

definition vWindow :: "nat list \<Rightarrow> int \<Rightarrow> int \<Rightarrow> int \<Rightarrow> int \<Rightarrow> int \<Rightarrow> acc" where
  "vWindow tempSrc w h r x y = fold (vStep tempSrc w h x y) [- r..r] (0, 0, 0, 0, 0)"

text \<open>
  \<^verbatim>\<open>acc / count\<close>: with no sample in the window both are zero and the quotient is NaN,
  here \<open>None\<close>; a typed array stores NaN as 0.
\<close>

definition average :: "rat \<Rightarrow> nat \<Rightarrow> rat option" where
  "average a n = (if n = 0 then None else Some (fdiv a (of_nat n)))"

definition storeNumber :: "rat option \<Rightarrow> nat" where
  "storeNumber v = (case v of None \<Rightarrow> 0 | Some q \<Rightarrow> toUint8Clamp q)"

definition writeAverages :: "nat list \<Rightarrow> int \<Rightarrow> acc \<Rightarrow> nat list" where
  "writeAverages dstData dst_idx a =
     (case a of (r_acc, g_acc, b_acc, a_acc, n) \<Rightarrow>
        dstData[nat dst_idx := storeNumber (average r_acc n),
                nat (dst_idx + 1) := storeNumber (average g_acc n),
                nat (dst_idx + 2) := storeNumber (average b_acc n),
                nat (dst_idx + 3) := storeNumber (average a_acc n)])"

definition horizontalPass :: "nat list \<Rightarrow> nat list \<Rightarrow> int \<Rightarrow> int \<Rightarrow> int \<Rightarrow> nat list" where
  "horizontalPass tempSrc dstData w h r =
     fold (\<lambda>y. fold (\<lambda>x d. writeAverages d ((y * w + x) * 4) (hWindow tempSrc w r y x)) [0..w - 1])
       [0..h - 1] dstData"

definition verticalPass :: "nat list \<Rightarrow> nat list \<Rightarrow> int \<Rightarrow> int \<Rightarrow> int \<Rightarrow> nat list" where
  "verticalPass tempSrc dstData w h r =
     fold (\<lambda>x. fold (\<lambda>y d. writeAverages d ((y * w + x) * 4) (vWindow tempSrc w h r x y)) [0..h - 1])
       [0..w - 1] dstData"

text \<open>
  \<^verbatim>\<open>tempSrc.set(dstData)\<close> throws a RangeError when \<^verbatim>\<open>dstData\<close> is longer than
  \<^verbatim>\<open>tempSrc\<close>, and otherwise overwrites the front of \<^verbatim>\<open>tempSrc\<close>.
\<close>

definition typedArraySet :: "nat list \<Rightarrow> nat list \<Rightarrow> error + nat list" where
  "typedArraySet target source =
     (if length target < length source then Inl RangeError
      else Inr (source @ drop (length source) target))"

definition boxBlur :: "nat list \<Rightarrow> nat list \<Rightarrow> int \<Rightarrow> int \<Rightarrow> int \<Rightarrow> error + nat list" where
  "boxBlur srcData dstData w h r =
     (case typedArraySet (replicate (length srcData) 0) srcData of
        Inl e \<Rightarrow> Inl e
      | Inr tempSrc \<Rightarrow>
          (let dst1 = horizontalPass tempSrc dstData w h r in
           case typedArraySet tempSrc dst1 of
             Inl e \<Rightarrow> Inl e
           | Inr tempSrc2 \<Rightarrow> Inr (verticalPass tempSrc2 dst1 w h r)))"

text \<open>
  The four divisions that end a window are defined (none is a division by zero) when none
  of the quotients is NaN.
\<close>

definition divisionsDefined :: "acc \<Rightarrow> bool" where
  "divisionsDefined a \<longleftrightarrow>
     (case a of (r_acc, g_acc, b_acc, a_acc, n) \<Rightarrow>
        average r_acc n \<noteq> None \<and> average g_acc n \<noteq> None \<and>
        average b_acc n \<noteq> None \<and> average a_acc n \<noteq> None)"

section \<open>Colour space conversion\<close>

text \<open>
  \<^verbatim>\<open>Math.cos\<close>, \<^verbatim>\<open>Math.pow\<close> and \<^verbatim>\<open>Math.random\<close> are supplied by the JavaScript
  engine; ECMAScript leaves the first two implementation-approximated and the third
  implementation-defined. They are parameters of the model: \<open>mathRandom k\<close> is the result
  of the \<open>k\<close>-th call. \<^verbatim>\<open>Math.PI\<close> is the binary64 value nearest to \<open>\<pi>\<close>, and
  \<^verbatim>\<open>Math.sqrt\<close> is the correctly rounded square root. \<^verbatim>\<open>Math.round\<close> rounds to the
  nearest integer, a tie towards \<open>+\<infinity>\<close>.
\<close>

record Math =
  mathCos :: "rat \<Rightarrow> rat"
  mathPow :: "rat \<Rightarrow> rat \<Rightarrow> rat"
  mathRandom :: "nat \<Rightarrow> rat"

definition mathPI :: rat where
  "mathPI = 884279719003555 / 281474976710656"

definition mathRound :: "rat \<Rightarrow> int" where
  "mathRound v = \<lfloor>v + 1 / 2\<rfloor>"

definition isqrtStep :: "int \<Rightarrow> int \<Rightarrow> int" where
  "isqrtStep n r = (if (2 * r + 1) * (2 * r + 1) \<le> n then 2 * r + 1 else 2 * r)"

function isqrt :: "int \<Rightarrow> int" where
  "isqrt n = (if n \<le> 0 then 0 else isqrtStep n (isqrt (n div 4)))"
  by pat_completeness auto
termination by (relation "measure nat") auto

declare isqrt.simps [simp del]

definition roundMid :: "rat \<Rightarrow> int \<Rightarrow> int" where
  "roundMid s r = (let mid = (of_int r + 1 / 2) * (of_int r + 1 / 2) in
     if s < mid then r else if mid < s then r + 1 else if even r then r else r + 1)"

definition fsqrt :: "rat \<Rightarrow> rat" where
  "fsqrt q = (if q \<le> 0 then 0 else
     (let k = 52 - (ilog2 q div 2);
          s = q * pow2 (2 * k)
      in of_int (roundMid s (isqrt \<lfloor>s\<rfloor>)) * pow2 (- k)))"

text \<open>\<^verbatim>\<open>rgbToHsl(r, g, b)\<close> returns \<open>(h, s, l)\<close> with the hue in degrees.\<close>

definition rgbToHsl :: "rat \<Rightarrow> rat \<Rightarrow> rat \<Rightarrow> rat \<times> rat \<times> rat" where
  "rgbToHsl r0 g0 b0 =
     (let r = fdiv r0 255; g = fdiv g0 255; b = fdiv b0 255;
          mx = max (max r g) b; mn = min (min r g) b;
          l = fdiv (fadd mx mn) 2
      in if mx \<noteq> mn then
           (let d = fsub mx mn;
                s = (if 1 / 2 < l then fdiv d (fsub (fsub 2 mx) mn) else fdiv d (fadd mx mn));
                h = (if mx = r then fadd (fdiv (fsub g b) d) (if g < b then 6 else 0)
                     else if mx = g then fadd (fdiv (fsub b r) d) 2
                     else fadd (fdiv (fsub r g) d) 4)
            in (fmul (fdiv h 6) 360, s, l))
         else (fmul 0 360, 0, l))"

definition hue2rgb :: "rat \<Rightarrow> rat \<Rightarrow> rat \<Rightarrow> rat" where
  "hue2rgb p q t0 =
     (let t1 = (if t0 < 0 then fadd t0 1 else t0);
          t = (if 1 < t1 then fsub t1 1 else t1)
      in if t < fdiv 1 6 then fadd p (fmul (fmul (fsub q p) 6) t)
         else if t < fdiv 1 2 then q
         else if t < fdiv 2 3 then fadd p (fmul (fmul (fsub q p) (fsub (fdiv 2 3) t)) 6)
         else p)"

definition hslToRgb :: "rat \<Rightarrow> rat \<Rightarrow> rat \<Rightarrow> rat \<times> rat \<times> rat" where
  "hslToRgb h0 s l =
     (let h = fdiv h0 360 in
      if s = 0 then (fmul l 255, fmul l 255, fmul l 255)
      else
        (let q = (if l < 1 / 2 then fmul l (fadd 1 s) else fsub (fadd l s) (fmul l s));
             p = fsub (fmul 2 l) q
         in (fmul (hue2rgb p q (fadd h (fdiv 1 3))) 255,
             fmul (hue2rgb p q h) 255,
             fmul (hue2rgb p q (fsub h (fdiv 1 3))) 255)))"

text \<open>
  The per-pixel loops \<^verbatim>\<open>for (let i = 0; i < data.length; i += 4)\<close> read the three colour
  channels of pixel \<open>i / 4\<close> and store three numbers back into them; the alpha channel
  is never written. \<open>forEachPixel f\<close> is that loop for the body \<open>f\<close>, which receives the
  pixel index and the channels read and returns the channels after the stores.
\<close>

definition pixelOffsets :: "nat list \<Rightarrow> nat list" where
  "pixelOffsets d = map (\<lambda>k. 4 * k) [0..<length d div 4]"

definition pixelStep :: "(nat \<Rightarrow> nat \<times> nat \<times> nat \<Rightarrow> nat \<times> nat \<times> nat) \<Rightarrow> nat \<Rightarrow> nat list \<Rightarrow> nat list" where
  "pixelStep f i d =
     (case f (i div 4) (d ! i, d ! (i + 1), d ! (i + 2)) of
        (r, g, b) \<Rightarrow> d[i := r, i + 1 := g, i + 2 := b])"

definition forEachPixel :: "(nat \<Rightarrow> nat \<times> nat \<times> nat \<Rightarrow> nat \<times> nat \<times> nat) \<Rightarrow> nat list \<Rightarrow> nat list" where
  "forEachPixel f d = fold (pixelStep f) (pixelOffsets d) d"

text \<open>
  What the loop leaves at offset \<open>i\<close> of the buffer: the channel of the pixel's result,
  or the untouched alpha.
\<close>

definition pixelOut :: "(nat \<Rightarrow> nat \<times> nat \<times> nat \<Rightarrow> nat \<times> nat \<times> nat) \<Rightarrow> nat list \<Rightarrow> nat \<Rightarrow> nat" where
  "pixelOut f d i =
     (case f (i div 4) (d ! (4 * (i div 4)), d ! (4 * (i div 4) + 1), d ! (4 * (i div 4) + 2)) of
        (r, g, b) \<Rightarrow> if i mod 4 = 0 then r else if i mod 4 = 1 then g
                    else if i mod 4 = 2 then b else d ! i)"

section \<open>Tone curves\<close>

datatype point = Point (px: rat) (py: rat)

type_synonym Curve = "point list"

record CurvesState =
  rgb :: Curve
  red :: Curve
  green :: Curve
  blue :: Curve

text \<open>The literal \<^verbatim>\<open>1e-7\<close>.\<close>

definition eps7 :: rat where
  "eps7 = fl (1 / 10000000)"

text \<open>
  The \<^verbatim>\<open>while\<close> loop that moves \<^verbatim>\<open>pointIndex\<close> to the segment of \<open>i\<close>.
\<close>

function advance :: "rat list \<Rightarrow> nat \<Rightarrow> rat \<Rightarrow> nat \<Rightarrow> nat" where
  "advance x n i p = (if p + 2 < n \<and> x ! (p + 1) < i then advance x n i (Suc p) else p)"
  by pat_completeness auto
termination by (relation "measure (\<lambda>(x, n, i, p). n - p)") auto

declare advance.simps [simp del]

definition segmentOf :: "rat list \<Rightarrow> nat \<Rightarrow> nat \<Rightarrow> nat" where
  "segmentOf x n i = advance x n (of_nat i) 0"

text \<open>One iteration of the loop that limits the tangents \<open>m\<close> (Fritsch-Carlson).\<close>

definition limitStep :: "rat list \<Rightarrow> nat \<Rightarrow> rat list \<Rightarrow> rat list" where
  "limitStep delta i m =
     (if delta ! i = 0 then m[i := 0, i + 1 := 0]
      else
        (let alpha = fdiv (m ! i) (delta ! i);
             beta = fdiv (m ! (i + 1)) (delta ! i);
             m1 = (if alpha < 0 then m[i := 0] else m);
             m2 = (if beta < 0 then m1[i + 1 := 0] else m1);
             hyp = fsqrt (fadd (fmul alpha alpha) (fmul beta beta))
         in if 3 < hyp then
              (let tau = fdiv 3 hyp;
                   m3 = m2[i := fmul (m2 ! i) tau]
               in m3[i + 1 := fmul (m3 ! (i + 1)) tau])
            else m2))"

text \<open>
  The cubic Hermite value at \<open>i\<close> on the segment \<open>pointIndex\<close>, clamped to \<open>[0, 255]\<close>:
  the body of the loop that fills the table.
\<close>

definition lutValue :: "rat list \<Rightarrow> rat list \<Rightarrow> rat list \<Rightarrow> rat list \<Rightarrow> nat \<Rightarrow> rat \<Rightarrow> rat" where
  "lutValue x y m dx pointIndex i =
     (let h = dx ! pointIndex;
          t = (if eps7 < h then fdiv (fsub i (x ! pointIndex)) h else 0);
          y0 = y ! pointIndex;
          y1 = y ! (pointIndex + 1);
          m0 = fmul (m ! pointIndex) h;
          m1 = fmul (m ! (pointIndex + 1)) h;
          t2 = fmul t t;
          t3 = fmul t2 t;
          h00 = fadd (fsub (fmul 2 t3) (fmul 3 t2)) 1;
          h10 = fadd (fsub t3 (fmul 2 t2)) t;
          h01 = fadd (fmul (- 2) t3) (fmul 3 t2);
          h11 = fsub t3 t2;
          val = fadd (fadd (fadd (fmul h00 y0) (fmul h10 m0)) (fmul h01 y1)) (fmul h11 m1)
      in max 0 (min 255 val))"

definition lutStep ::
  "rat list \<Rightarrow> rat list \<Rightarrow> rat list \<Rightarrow> rat list \<Rightarrow> nat \<Rightarrow> nat \<Rightarrow> nat \<times> rat list \<Rightarrow> nat \<times> rat list" where
  "lutStep x y m dx n i st =
     (let pointIndex = advance x n (of_nat i) (fst st)
      in (pointIndex, (snd st)[i := lutValue x y m dx pointIndex (of_nat i)]))"

text \<open>
  \<^verbatim>\<open>createLutFromPoints(points)\<close>. The \<^verbatim>\<open>Map\<close> keeps one \<open>y\<close> for each \<open>x\<close>, the last
  one set, at the position of the first; its entries are then sorted by \<open>x\<close>.
\<close>

definition mapSet :: "point \<Rightarrow> (rat \<times> rat) list \<Rightarrow> (rat \<times> rat) list" where
  "mapSet p pointMap = AList.update (px p) (py p) pointMap"

definition uniquePoints :: "Curve \<Rightarrow> (rat \<times> rat) list" where
  "uniquePoints points = sort_key fst (fold mapSet points [])"

definition widthAt :: "rat list \<Rightarrow> nat \<Rightarrow> rat" where
  "widthAt x i = fsub (x ! (i + 1)) (x ! i)"

definition segmentWidths :: "rat list \<Rightarrow> rat list" where
  "segmentWidths x = map (widthAt x) [0..<length x - 1]"

definition slopeAt :: "rat list \<Rightarrow> rat list \<Rightarrow> nat \<Rightarrow> rat" where
  "slopeAt y dx i = (if dx ! i \<le> eps7 then 0 else fdiv (fsub (y ! (i + 1)) (y ! i)) (dx ! i))"

definition segmentSlopes :: "rat list \<Rightarrow> rat list \<Rightarrow> rat list" where
  "segmentSlopes y dx = map (slopeAt y dx) [0..<length dx]"

definition averageStep :: "rat list \<Rightarrow> nat \<Rightarrow> rat list \<Rightarrow> rat list" where
  "averageStep delta i m = m[i := fdiv (fadd (delta ! (i - 1)) (delta ! i)) 2]"

definition initialTangents :: "nat \<Rightarrow> rat list \<Rightarrow> rat list" where
  "initialTangents n delta =
     fold (averageStep delta) [1..<n - 1]
       ((replicate n 0)[0 := delta ! 0, n - 1 := delta ! (n - 2)])"

definition tangents :: "nat \<Rightarrow> rat list \<Rightarrow> rat list" where
  "tangents n delta = fold (limitStep delta) [0..<n - 1] (initialTangents n delta)"

definition createLutFromPoints :: "Curve \<Rightarrow> rat list" where
  "createLutFromPoints points =
     (let up = uniquePoints points in
      if length up = 0 then map of_nat [0..<256]
      else if length up = 1 then replicate 256 (max 0 (min 255 (snd (up ! 0))))
      else
        (let n = length up;
             x = map fst up;
             y = map snd up;
             dx = segmentWidths x;
             m = tangents n (segmentSlopes y dx);
             lut = snd (fold (lutStep x y m dx n) [0..<256] (0, replicate 256 0))
         in lut[255 := y ! (n - 1)]))"

definition BAYER_MATRIX_8X8 :: "nat list list" where
  "BAYER_MATRIX_8X8 =
     [[ 0, 32,  8, 40,  2, 34, 10, 42],
      [48, 16, 56, 24, 50, 18, 58, 26],
      [12, 44,  4, 36, 14, 46,  6, 38],
      [60, 28, 52, 20, 62, 30, 54, 22],
      [ 3, 35, 11, 43,  1, 33,  9, 41],
      [51, 19, 59, 27, 49, 17, 57, 25],
      [15, 47,  7, 39, 13, 45,  5, 37],
      [63, 31, 55, 23, 61, 29, 53, 21]]"

definition isDefault :: "Curve \<Rightarrow> bool" where
  "isDefault c \<longleftrightarrow>
     length c = 2 \<and> px (c ! 0) = 0 \<and> py (c ! 0) = 0 \<and> px (c ! 1) = 255 \<and> py (c ! 1) = 255"

definition ditherAt :: "nat \<Rightarrow> nat \<Rightarrow> rat" where
  "ditherAt w pixelIndex =
     (let x = pixelIndex mod w; y = pixelIndex div w
      in fsub (fdiv (of_nat (BAYER_MATRIX_8X8 ! (y mod 8) ! (x mod 8))) 64) (1 / 2))"

text \<open>\<^verbatim>\<open>Math.round(Math.max(0, Math.min(255, v + dither)))\<close>, an index into a table.\<close>

definition lutIndex :: "rat \<Rightarrow> rat \<Rightarrow> nat" where
  "lutIndex v dither = nat (mathRound (max 0 (min 255 (fadd v dither))))"

definition hueInfluence :: "Math \<Rightarrow> bool \<Rightarrow> rat \<Rightarrow> rat \<Rightarrow> rat" where
  "hueInfluence M isDef h centre =
     (let dist = min \<bar>fsub h centre\<bar> (fsub 360 \<bar>fsub h centre\<bar>)
      in if \<not> isDef \<and> dist < 90
         then mathPow M (fdiv (fadd (mathCos M (fmul (fdiv dist 90) mathPI)) 1) 2) (3 / 2)
         else 0)"

definition blend :: "rat \<Rightarrow> rat \<Rightarrow> rat \<Rightarrow> rat" where
  "blend v adj influence = fadd (fmul v (fsub 1 influence)) (fmul adj influence)"

definition curvePixel ::
  "Math \<Rightarrow> CurvesState \<Rightarrow> rat list \<Rightarrow> rat list \<Rightarrow> rat list \<Rightarrow> rat list \<Rightarrow> nat
     \<Rightarrow> nat \<Rightarrow> nat \<times> nat \<times> nat \<Rightarrow> nat \<times> nat \<times> nat" where
  "curvePixel M curves lutRgb lutR lutG lutB w pixelIndex c =
     (case c of (r, g, b) \<Rightarrow>
       (let dither = ditherAt w pixelIndex;
            r_in = of_nat r; g_in = of_nat g; b_in = of_nat b;
            needsHueMasking = (\<not> isDefault (red curves) \<or> \<not> isDefault (green curves)
                                \<or> \<not> isDefault (blue curves));
            processed =
              (if needsHueMasking then
                 (case rgbToHsl r_in g_in b_in of (h, s, l) \<Rightarrow>
                    if fl (5 / 100) < s then
                      (blend r_in (lutR ! lutIndex r_in dither)
                         (hueInfluence M (isDefault (red curves)) h 0),
                       blend g_in (lutG ! lutIndex g_in dither)
                         (hueInfluence M (isDefault (green curves)) h 120),
                       blend b_in (lutB ! lutIndex b_in dither)
                         (hueInfluence M (isDefault (blue curves)) h 240))
                    else (r_in, g_in, b_in))
               else (lutR ! lutIndex r_in dither, lutG ! lutIndex g_in dither,
                     lutB ! lutIndex b_in dither))
        in case processed of (r_processed, g_processed, b_processed) \<Rightarrow>
             (toUint8Clamp (lutRgb ! lutIndex r_processed dither),
              toUint8Clamp (lutRgb ! lutIndex g_processed dither),
              toUint8Clamp (lutRgb ! lutIndex b_processed dither))))"

definition applyCurves :: "Math \<Rightarrow> ImageData \<Rightarrow> CurvesState \<Rightarrow> ImageData" where
  "applyCurves M imageData curves =
     imageData\<lparr>data := forEachPixel
       (curvePixel M curves (createLutFromPoints (rgb curves)) (createLutFromPoints (red curves))
          (createLutFromPoints (green curves)) (createLutFromPoints (blue curves)) (width imageData))
       (data imageData)\<rparr>"

section \<open>Histogram\<close>

text \<open>
  \<^verbatim>\<open>calculateHistogram(imageData)\<close>: four arrays of 256 counts, each normalised on its own.
\<close>

record HistogramData =
  hist_rgb :: "rat list"
  hist_red :: "rat list"
  hist_green :: "rat list"
  hist_blue :: "rat list"

definition increment :: "rat list \<Rightarrow> nat \<Rightarrow> rat list" where
  "increment hist k = hist[k := fadd (hist ! k) 1]"

definition lumaOf :: "nat \<Rightarrow> nat \<Rightarrow> nat \<Rightarrow> rat" where
  "lumaOf r g b =
     fadd (fadd (fmul (of_nat r) (fl (299 / 1000))) (fmul (of_nat g) (fl (587 / 1000))))
       (fmul (of_nat b) (fl (114 / 1000)))"

definition histogramStep :: "nat list \<Rightarrow> nat \<Rightarrow> HistogramData \<Rightarrow> HistogramData" where
  "histogramStep d i hs =
     (let redV = d ! i; greenV = d ! (i + 1); blueV = d ! (i + 2);
          luma = mathRound (lumaOf redV greenV blueV)
      in \<lparr>hist_rgb = increment (hist_rgb hs) (nat luma),
          hist_red = increment (hist_red hs) redV,
          hist_green = increment (hist_green hs) greenV,
          hist_blue = increment (hist_blue hs) blueV\<rparr>)"

definition maxOf :: "rat list \<Rightarrow> rat" where
  "maxOf hist = fold max (tl hist) (hd hist)"

definition normalize :: "rat list \<Rightarrow> rat list" where
  "normalize hist =
     (let maxVal = maxOf hist in
      if maxVal = 0 then hist
      else (let scale = fdiv 255 maxVal in map (\<lambda>val. fmul val scale) hist))"

definition calculateHistogram :: "ImageData \<Rightarrow> HistogramData" where
  "calculateHistogram imageData =
     (let zeros = replicate 256 0;
          hs = fold (histogramStep (data imageData)) (pixelOffsets (data imageData))
                 \<lparr>hist_rgb = zeros, hist_red = zeros, hist_green = zeros, hist_blue = zeros\<rparr>
      in \<lparr>hist_rgb = normalize (hist_rgb hs), hist_red = normalize (hist_red hs),
          hist_green = normalize (hist_green hs), hist_blue = normalize (hist_blue hs)\<rparr>)"

text \<open>
  A uniform image: every pixel is \<open>(r, g, b, a)\<close>. Its histograms have one occupied
  bin each; \<open>spike i v\<close> is the 256-entry array that is \<open>v\<close> at \<open>i\<close> and zero elsewhere,
  and \<open>peak n\<close> is what normalisation makes of the count \<open>n\<close>:
  \<^verbatim>\<open>n * (255 / n)\<close> in binary64 arithmetic.
\<close>

definition uniformImage :: "nat \<Rightarrow> nat \<Rightarrow> nat \<Rightarrow> nat \<Rightarrow> nat \<Rightarrow> nat \<Rightarrow> ImageData" where
  "uniformImage w h r g b a = \<lparr>width = w, height = h, data = concat (replicate (w * h) [r, g, b, a])\<rparr>"

definition peak :: "nat \<Rightarrow> rat" where
  "peak n = fmul (of_nat n) (fdiv 255 (of_nat n))"

definition spike :: "nat \<Rightarrow> rat \<Rightarrow> rat list" where
  "spike i v = (replicate 256 0)[i := v]"

section \<open>Evaluating the arithmetic\<close>

lemma floor_rat_numeral_div [simp]:
  "\<lfloor>numeral a / numeral b :: rat\<rfloor> = numeral a div numeral b"
  using floor_divide_of_int_eq [of "numeral a" "numeral b", where ?'a = rat] by simp

lemma floor_rat_neg_numeral_div [simp]:
  "\<lfloor>- (numeral a / numeral b) :: rat\<rfloor> = - numeral a div numeral b"
  using floor_divide_of_int_eq [of "- numeral a" "numeral b", where ?'a = rat] by simp

lemmas fl_eval =
  fl_def ilog2_def rhe_def pow2_def flog2.simps fadd_def fsub_def fmul_def fdiv_def Let_def

lemmas boxBlur_eval =
  boxBlur_def typedArraySet_def horizontalPass_def verticalPass_def hWindow_def vWindow_def
  hStep_def vStep_def addSample_def writeAverages_def average_def storeNumber_def
  toUint8Clamp_def upto.simps

section \<open>Properties of the box blur\<close>

lemma count_addSample: "sampleCount (addSample t k a) = sampleCount a + 1"
  by (cases a) (simp add: addSample_def sampleCount_def)

lemma count_hStep: "sampleCount a \<le> sampleCount (hStep t w y x i a)"
  by (simp add: hStep_def Let_def count_addSample)

lemma count_vStep: "sampleCount a \<le> sampleCount (vStep t w h x y i a)"
  by (simp add: vStep_def Let_def count_addSample)

lemma count_fold_hStep_mono: "sampleCount a \<le> sampleCount (fold (hStep t w y x) is a)"
proof (induction "is" arbitrary: a)
  case Nil
  then show ?case by simp
next
  case (Cons i "is")
  have "sampleCount a \<le> sampleCount (hStep t w y x i a)" by (rule count_hStep)
  also have "\<dots> \<le> sampleCount (fold (hStep t w y x) is (hStep t w y x i a))" by (rule Cons.IH)
  finally show ?case by simp
qed

lemma count_fold_vStep_mono: "sampleCount a \<le> sampleCount (fold (vStep t w h x y) is a)"
proof (induction "is" arbitrary: a)
  case Nil
  then show ?case by simp
next
  case (Cons i "is")
  have "sampleCount a \<le> sampleCount (vStep t w h x y i a)" by (rule count_vStep)
  also have "\<dots> \<le> sampleCount (fold (vStep t w h x y) is (vStep t w h x y i a))" by (rule Cons.IH)
  finally show ?case by simp
qed

lemma count_fold_hStep_centre:
  assumes "0 \<in> set is" and "0 \<le> x" and "x < w"
  shows "sampleCount a + 1 \<le> sampleCount (fold (hStep t w y x) is a)"
  using assms(1)
proof (induction "is" arbitrary: a)
  case Nil
  then show ?case by simp
next
  case (Cons i "is")
  show ?case
  proof (cases "i = 0")
    case True
    have "sampleCount (hStep t w y x 0 a) = sampleCount a + 1"
      using assms(2,3) by (simp add: hStep_def count_addSample)
    then show ?thesis
      using count_fold_hStep_mono [of "hStep t w y x 0 a" t w y x "is"] True by simp
  next
    case False
    with Cons.prems have "0 \<in> set is" by simp
    from Cons.IH [OF this, of "hStep t w y x i a"] count_hStep [of a t w y x i]
    show ?thesis by simp
  qed
qed

lemma count_fold_vStep_centre:
  assumes "0 \<in> set is" and "0 \<le> y" and "y < h"
  shows "sampleCount a + 1 \<le> sampleCount (fold (vStep t w h x y) is a)"
  using assms(1)
proof (induction "is" arbitrary: a)
  case Nil
  then show ?case by simp
next
  case (Cons i "is")
  show ?case
  proof (cases "i = 0")
    case True
    have "sampleCount (vStep t w h x y 0 a) = sampleCount a + 1"
      using assms(2,3) by (simp add: vStep_def count_addSample)
    then show ?thesis
      using count_fold_vStep_mono [of "vStep t w h x y 0 a" t w h x y "is"] True by simp
  next
    case False
    with Cons.prems have "0 \<in> set is" by simp
    from Cons.IH [OF this, of "vStep t w h x y i a"] count_vStep [of a t w h x y i]
    show ?thesis by simp
  qed
qed

lemma hWindow_count:
  assumes "0 \<le> r" and "0 \<le> x" and "x < w"
  shows "1 \<le> sampleCount (hWindow t w r y x)"
proof -
  from assms(1) have "0 \<in> set [- r..r]" by simp
  from count_fold_hStep_centre [OF this assms(2,3), of "(0, 0, 0, 0, 0)" t y]
  show ?thesis by (simp add: hWindow_def)
qed

lemma vWindow_count:
  assumes "0 \<le> r" and "0 \<le> y" and "y < h"
  shows "1 \<le> sampleCount (vWindow t w h r x y)"
proof -
  from assms(1) have "0 \<in> set [- r..r]" by simp
  from count_fold_vStep_centre [OF this assms(2,3), of "(0, 0, 0, 0, 0)" t w x]
  show ?thesis by (simp add: vWindow_def)
qed

lemma length_writeAverages: "length (writeAverages d k a) = length d"
  by (cases a) (simp add: writeAverages_def)

lemma length_fold_writeAverages:
  "length (fold (\<lambda>x d. writeAverages d (f x) (g x)) xs d) = length d"
  by (induction xs arbitrary: d) (simp_all add: length_writeAverages)

lemma length_horizontalPass: "length (horizontalPass t d w h r) = length d"
proof -
  have "length (fold (\<lambda>y. fold (\<lambda>x d. writeAverages d ((y * w + x) * 4) (hWindow t w r y x)) xs) ys d)
      = length d" for xs ys
    by (induction ys arbitrary: d) (simp_all add: length_fold_writeAverages)
  then show ?thesis by (simp add: horizontalPass_def)
qed

lemma length_verticalPass: "length (verticalPass t d w h r) = length d"
proof -
  have "length (fold (\<lambda>x. fold (\<lambda>y d. writeAverages d ((y * w + x) * 4) (vWindow t w h r x y)) ys) xs d)
      = length d" for xs ys
    by (induction xs arbitrary: d) (simp_all add: length_fold_writeAverages)
  then show ?thesis by (simp add: verticalPass_def)
qed

lemma divisionsDefined_count: "divisionsDefined a \<longleftrightarrow> 1 \<le> sampleCount a"
  by (cases a) (auto simp add: divisionsDefined_def sampleCount_def average_def)

section \<open>Properties of the rounding\<close>

lemma flog2_bounds:
  "1 \<le> n \<Longrightarrow> 0 \<le> flog2 n \<and> 2 ^ nat (flog2 n) \<le> n \<and> n < 2 * 2 ^ nat (flog2 n)"
proof (induction n rule: flog2.induct)
  case (1 n)
  show ?case
  proof (cases "n < 2")
    case True
    with "1.prems" have "n = 1" by simp
    then show ?thesis by (simp add: flog2.simps)
  next
    case False
    then have "1 \<le> n div 2" by simp
    with "1.IH" False have ih: "0 \<le> flog2 (n div 2)" "2 ^ nat (flog2 (n div 2)) \<le> n div 2"
      "n div 2 < 2 * 2 ^ nat (flog2 (n div 2))" by simp_all
    have eq: "flog2 n = flog2 (n div 2) + 1" using False by (simp add: flog2.simps)
    have nat_eq: "nat (flog2 n) = Suc (nat (flog2 (n div 2)))" using ih(1) eq by simp
    define m where "m = (2::int) ^ nat (flog2 (n div 2))"
    have d: "2 * (n div 2) \<le> n" "n < 2 * (n div 2) + 2" by presburger+
    from ih(2,3) have "m \<le> n div 2" "n div 2 < 2 * m" by (simp_all add: m_def)
    with d have "2 * m \<le> n" "n < 2 * (2 * m)" by linarith+
    then show ?thesis using ih(1) eq unfolding nat_eq m_def by simp
  qed
qed

lemma pow2_pos: "0 < pow2 e"
  by (simp add: pow2_def)

lemma pow2_powi: "pow2 e = 2 powi e"
proof (cases "0 \<le> e")
  case True
  then show ?thesis by (simp add: pow2_def power_int_def)
next
  case False
  have "(1::rat) / 2 ^ nat (- e) = inverse 2 ^ nat (- e)"
    by (simp add: power_one_over inverse_eq_divide)
  with False show ?thesis by (simp add: pow2_def power_int_def)
qed

lemma pow2_add: "pow2 (a + b) = pow2 a * pow2 b"
  by (simp add: pow2_powi power_int_add)

lemma pow2_0: "pow2 0 = 1" by (simp add: pow2_def)
lemma pow2_1: "pow2 1 = 2" by (simp add: pow2_def)
lemma pow2_m1: "pow2 (- 1) = 1 / 2" by (simp add: pow2_def)

lemma pow2_mono: "a \<le> b \<Longrightarrow> pow2 a \<le> pow2 b"
proof -
  assume "a \<le> b"
  then obtain k where b: "b = a + int k" by (metis nat_le_iff_add zle_iff_zadd)
  have "1 \<le> pow2 (int k)" by (simp add: pow2_def)
  then show ?thesis unfolding b pow2_add using pow2_pos [of a] by (simp add: mult_le_cancel_left1)
qed

lemma pow2_nat: "0 \<le> e \<Longrightarrow> pow2 e = 2 ^ nat e"
  by (simp add: pow2_def)

lemma ilog2_bounds:
  assumes "0 < q"
  shows "pow2 (ilog2 q) \<le> q \<and> q < 2 * pow2 (ilog2 q)"
proof (cases "1 \<le> q")
  case True
  then have n: "1 \<le> \<lfloor>q\<rfloor>" by simp
  from flog2_bounds [OF n]
  have b: "0 \<le> flog2 \<lfloor>q\<rfloor>" "2 ^ nat (flog2 \<lfloor>q\<rfloor>) \<le> \<lfloor>q\<rfloor>" "\<lfloor>q\<rfloor> < 2 * 2 ^ nat (flog2 \<lfloor>q\<rfloor>)"
    by simp_all
  have e: "ilog2 q = flog2 \<lfloor>q\<rfloor>" using True by (simp add: ilog2_def)
  have "(of_int (2 ^ nat (flog2 \<lfloor>q\<rfloor>)) :: rat) \<le> of_int \<lfloor>q\<rfloor>" using b(2) by (simp only: of_int_le_iff)
  also have "\<dots> \<le> q" by simp
  finally have lo: "pow2 (ilog2 q) \<le> q" using b(1) by (simp add: e pow2_nat)
  have "\<lfloor>q\<rfloor> + 1 \<le> 2 * 2 ^ nat (flog2 \<lfloor>q\<rfloor>)" using b(3) by simp
  then have "(of_int (\<lfloor>q\<rfloor> + 1) :: rat) \<le> of_int (2 * 2 ^ nat (flog2 \<lfloor>q\<rfloor>))" by (simp only: of_int_le_iff)
  moreover have "q < of_int (\<lfloor>q\<rfloor> + 1)" using floor_correct [of q] by simp
  ultimately have "q < of_int (2 * 2 ^ nat (flog2 \<lfloor>q\<rfloor>))" by linarith
  then have hi: "q < 2 * pow2 (ilog2 q)" using b(1) by (simp add: e pow2_nat)
  from lo hi show ?thesis ..
next
  case False
  define r where "r = 1 / q"
  have r1: "1 \<le> r" using False assms by (simp add: r_def)
  then have n: "1 \<le> \<lfloor>r\<rfloor>" by simp
  define k where "k = flog2 \<lfloor>r\<rfloor>"
  from flog2_bounds [OF n]
  have b: "0 \<le> k" "2 ^ nat k \<le> \<lfloor>r\<rfloor>" "\<lfloor>r\<rfloor> < 2 * 2 ^ nat k"
    by (simp_all add: k_def)
  have "(of_int (2 ^ nat k) :: rat) \<le> of_int \<lfloor>r\<rfloor>" using b(2) by (simp only: of_int_le_iff)
  also have "\<dots> \<le> r" by simp
  finally have rlo: "2 ^ nat k \<le> r" by simp
  have "\<lfloor>r\<rfloor> + 1 \<le> 2 * 2 ^ nat k" using b(3) by simp
  then have "(of_int (\<lfloor>r\<rfloor> + 1) :: rat) \<le> of_int (2 * 2 ^ nat k)" by (simp only: of_int_le_iff)
  moreover have "r < of_int (\<lfloor>r\<rfloor> + 1)" using floor_correct [of r] by simp
  ultimately have rhi: "r < 2 * 2 ^ nat k" by simp
  have qlo: "1 / (2 * 2 ^ nat k) < q"
    using rhi assms by (simp add: r_def field_simps)
  have qhi: "q \<le> 1 / 2 ^ nat k"
    using rlo assms by (simp add: r_def field_simps)
  have pk: "pow2 (- k) = 1 / 2 ^ nat k"
    using b(1) by (cases "k = 0") (simp_all add: pow2_def)
  have pk1: "pow2 (- k - 1) = 1 / (2 * 2 ^ nat k)"
  proof -
    have "pow2 (- k - 1) = pow2 (- k) * pow2 (- 1)" using pow2_add [of "- k" "- 1"] by simp
    then show ?thesis by (simp add: pk pow2_m1)
  qed
  show ?thesis
  proof (cases "q * 2 ^ nat k = 1")
    case True
    then have e: "ilog2 q = - k" using False by (simp add: ilog2_def k_def r_def Let_def)
    have "q = 1 / 2 ^ nat k" using True by (simp add: field_simps)
    then have qe: "q = pow2 (- k)" by (simp add: pk)
    show ?thesis unfolding e using qe pow2_pos [of "- k"] by simp
  next
    case neq: False
    then have e: "ilog2 q = - k - 1" using False by (simp add: ilog2_def k_def r_def Let_def)
    have "q \<noteq> 1 / 2 ^ nat k" using neq by (auto simp add: field_simps)
    with qhi have "q < 1 / 2 ^ nat k" by simp
    then have "q < 2 * pow2 (- k - 1)" by (simp add: pk1)
    moreover have "pow2 (- k - 1) \<le> q" using qlo by (simp add: pk1)
    ultimately show ?thesis by (simp add: e)
  qed
qed

lemma rhe_floor: "\<lfloor>q\<rfloor> \<le> rhe q \<and> rhe q \<le> \<lfloor>q\<rfloor> + 1"
  by (simp add: rhe_def Let_def)

lemma rhe_of_int: "rhe (of_int k) = k"
  by (simp add: rhe_def Let_def)

lemma rhe_error: "\<bar>of_int (rhe q) - q\<bar> \<le> 1 / 2"
proof -
  define f where "f = \<lfloor>q\<rfloor>"
  have b: "of_int f \<le> q" "q < of_int f + 1"
    using floor_correct [of q] by (simp_all add: f_def)
  have r: "rhe q = (if q - of_int f < 1 / 2 then f else if 1 / 2 < q - of_int f then f + 1
                    else if even f then f else f + 1)"
    by (simp add: rhe_def Let_def f_def)
  show ?thesis
  proof (cases "q - of_int f < 1 / 2")
    case True
    with b r show ?thesis by simp
  next
    case False
    with b r show ?thesis by (cases "1 / 2 < q - of_int f") (auto simp add: abs_if)
  qed
qed


lemma fl_0: "fl 0 = 0"
  by (simp add: fl_def)

lemma fl_nonzero:
  "q \<noteq> 0 \<Longrightarrow> fl q = of_int (rhe (q / pow2 (max (ilog2 \<bar>q\<bar> - 52) (- 1074)))) *
     pow2 (max (ilog2 \<bar>q\<bar> - 52) (- 1074))"
  by (simp add: fl_def Let_def)

lemma fl_abs_error:
  assumes "q \<noteq> 0"
  shows "\<bar>fl q - q\<bar> \<le> pow2 (max (ilog2 \<bar>q\<bar> - 52) (- 1074)) / 2"
proof -
  define P where "P = pow2 (max (ilog2 \<bar>q\<bar> - 52) (- 1074))"
  have P: "0 < P" by (simp add: P_def pow2_pos)
  define x where "x = q / P"
  have q: "q = x * P" using P by (simp add: x_def)
  have "fl q - q = (of_int (rhe x) - x) * P"
    using fl_nonzero [OF assms] P by (simp add: P_def [symmetric] x_def algebra_simps)
  then have "\<bar>fl q - q\<bar> = \<bar>of_int (rhe x) - x\<bar> * P"
    using P by (simp add: abs_mult)
  also have "\<dots> \<le> (1 / 2) * P"
    using rhe_error [of x] P by (intro mult_right_mono) simp_all
  finally show ?thesis by (simp add: P_def)
qed

lemma fl_lower:
  assumes "pow2 (- 1074) \<le> q"
  shows "q / 2 \<le> fl q"
proof -
  have q0: "0 < q" using assms pow2_pos [of "- 1074"] by linarith
  define p where "p = max (ilog2 \<bar>q\<bar> - 52) (- 1074)"
  define P where "P = pow2 p"
  have P: "0 < P" by (simp add: P_def pow2_pos)
  have "P \<le> q"
  proof (cases "- 1074 \<le> ilog2 \<bar>q\<bar> - 52")
    case True
    then have "p = ilog2 q - 52" using q0 by (simp add: p_def)
    then have "P \<le> pow2 (ilog2 q)" unfolding P_def by (intro pow2_mono) simp
    with ilog2_bounds [OF q0] show ?thesis by linarith
  next
    case False
    then have "p = - 1074" by (simp add: p_def)
    with assms show ?thesis by (simp add: P_def)
  qed
  define x where "x = q / P"
  have x1: "1 \<le> x" using \<open>P \<le> q\<close> P by (simp add: x_def)
  then have f1: "1 \<le> \<lfloor>x\<rfloor>" by simp
  have fx: "x < of_int \<lfloor>x\<rfloor> + 1" using floor_correct [of x] by simp
  have "x / 2 \<le> of_int \<lfloor>x\<rfloor>"
  proof -
    have "(1::rat) \<le> of_int \<lfloor>x\<rfloor>" using f1 by (simp only: of_int_le_iff [symmetric, where ?'a = rat] of_int_1)
    with fx show ?thesis by linarith
  qed
  also have "\<dots> \<le> of_int (rhe x)" using rhe_floor [of x] by simp
  finally have "x / 2 * P \<le> of_int (rhe x) * P" using P by (simp add: mult_right_mono)
  moreover have "fl q = of_int (rhe x) * P"
    using fl_nonzero [of q] q0 by (simp add: x_def P_def p_def)
  moreover have "x / 2 * P = q / 2" using P by (simp add: x_def)
  ultimately show ?thesis by simp
qed

lemma fl_pos: "pow2 (- 1074) \<le> q \<Longrightarrow> 0 < fl q"
  using fl_lower [of q] pow2_pos [of "- 1074"] by linarith

lemma fl_of_int:
  assumes "\<bar>k\<bar> < 2 ^ 53"
  shows "fl (of_int k) = of_int k"
proof (cases "k = 0")
  case True
  then show ?thesis by (simp add: fl_0)
next
  case False
  define q :: rat where "q = of_int k"
  have q0: "q \<noteq> 0" using False by (simp add: q_def)
  have aq: "\<bar>q\<bar> = of_int \<bar>k\<bar>" by (simp add: q_def)
  have a1: "1 \<le> \<bar>q\<bar>" using False unfolding aq by (simp only: of_int_1_le_iff)
  have a2: "\<bar>q\<bar> < 2 ^ 53"
  proof -
    have "(of_int \<bar>k\<bar> :: rat) < of_int (2 ^ 53)" using assms by (simp only: of_int_less_iff)
    then show ?thesis by (simp add: aq)
  qed
  define e where "e = ilog2 \<bar>q\<bar>"
  have eb: "pow2 e \<le> \<bar>q\<bar>" "\<bar>q\<bar> < 2 * pow2 e"
    using ilog2_bounds [of "\<bar>q\<bar>"] a1 by (simp_all add: e_def)
  have e0: "0 \<le> e"
  proof (rule ccontr)
    assume "\<not> 0 \<le> e"
    then have "e \<le> - 1" by simp
    then have "pow2 e \<le> pow2 (- 1)" by (rule pow2_mono)
    with eb(2) a1 show False by (simp add: pow2_m1)
  qed
  have e52: "e \<le> 52"
  proof (rule ccontr)
    assume "\<not> e \<le> 52"
    then have "53 \<le> e" by simp
    then have "pow2 53 \<le> pow2 e" by (rule pow2_mono)
    with eb(1) a2 show False by (simp add: pow2_def)
  qed
  define n where "n = nat (52 - e)"
  have p: "max (e - 52) (- 1074) = - int n" using e0 e52 by (simp add: n_def)
  have P: "pow2 (- int n) = 1 / 2 ^ n" by (cases "n = 0") (simp_all add: pow2_def)
  have "q / pow2 (- int n) = of_int (k * 2 ^ n)" by (simp add: P q_def)
  then have "rhe (q / pow2 (- int n)) = k * 2 ^ n" by (simp only: rhe_of_int)
  then have "fl q = of_int (k * 2 ^ n) * pow2 (- int n)"
    using fl_nonzero [OF q0] p by (simp add: e_def)
  then show ?thesis by (simp add: P q_def)
qed

lemma fl_of_nat: "n < 2 ^ 53 \<Longrightarrow> fl (of_nat n) = of_nat n"
  using fl_of_int [of "int n"] by simp

lemma fl_rel_error:
  assumes "pow2 (- 1022) \<le> \<bar>q\<bar>"
  shows "\<bar>fl q - q\<bar> \<le> \<bar>q\<bar> / 2 ^ 53"
proof -
  have q0: "q \<noteq> 0" using assms pow2_pos [of "- 1022"] by auto
  define e where "e = ilog2 \<bar>q\<bar>"
  have eb: "pow2 e \<le> \<bar>q\<bar>" "\<bar>q\<bar> < 2 * pow2 e"
    using ilog2_bounds [of "\<bar>q\<bar>"] q0 by (simp_all add: e_def)
  have e1022: "- 1022 \<le> e"
  proof (rule ccontr)
    assume "\<not> - 1022 \<le> e"
    then have "e + 1 \<le> - 1022" by simp
    then have "pow2 (e + 1) \<le> pow2 (- 1022)" by (rule pow2_mono)
    moreover have "pow2 (e + 1) = 2 * pow2 e" using pow2_add [of e 1] by (simp add: pow2_1)
    ultimately show False using eb(2) assms by linarith
  qed
  then have p: "max (e - 52) (- 1074) = e - 52" by simp
  have "pow2 (e - 52) = pow2 e * pow2 (- 52)" using pow2_add [of e "- 52"] by simp
  also have "\<dots> = pow2 e / 2 ^ 52" by (simp add: pow2_def)
  finally have P: "pow2 (e - 52) = pow2 e / 2 ^ 52" .
  have "\<bar>fl q - q\<bar> \<le> pow2 (e - 52) / 2"
    using fl_abs_error [OF q0] p by (simp add: e_def)
  also have "\<dots> = pow2 e / 2 ^ 53" by (simp add: P)
  also have "\<dots> \<le> \<bar>q\<bar> / 2 ^ 53" using eb(1) by (simp add: divide_right_mono)
  finally show ?thesis .
qed

lemma fl_nonneg: "0 \<le> q \<Longrightarrow> 0 \<le> fl q"
proof (cases "q = 0")
  case True then show ?thesis by (simp add: fl_0)
next
  case False
  assume "0 \<le> q"
  define P where "P = pow2 (max (ilog2 \<bar>q\<bar> - 52) (- 1074))"
  have P: "0 < P" by (simp add: P_def pow2_pos)
  have "0 \<le> q / P" using \<open>0 \<le> q\<close> P by simp
  then have "0 \<le> \<lfloor>q / P\<rfloor>" by simp
  then have "0 \<le> rhe (q / P)" using rhe_floor [of "q / P"] by linarith
  then have "(0::rat) \<le> of_int (rhe (q / P)) * P" using P by simp
  then show ?thesis using fl_nonzero [OF False] by (simp add: P_def)
qed

lemma fl_upper_256:
  assumes "0 \<le> q" and "q \<le> 256"
  shows "fl q \<le> q + 1 / 2 ^ 44"
proof (cases "q = 0")
  case True then show ?thesis by (simp add: fl_0)
next
  case False
  define e where "e = ilog2 \<bar>q\<bar>"
  have q0: "0 < q" using False assms by simp
  have eb: "pow2 e \<le> q" using ilog2_bounds [of q] q0 by (simp add: e_def)
  have e8: "e \<le> 8"
  proof (rule ccontr)
    assume "\<not> e \<le> 8"
    then have "9 \<le> e" by simp
    then have "pow2 9 \<le> pow2 e" by (rule pow2_mono)
    with eb assms(2) show False by (simp add: pow2_def)
  qed
  have "max (e - 52) (- 1074) \<le> - 44" using e8 by simp
  then have "pow2 (max (e - 52) (- 1074)) \<le> pow2 (- 44)" by (rule pow2_mono)
  then have "pow2 (max (e - 52) (- 1074)) / 2 \<le> 1 / 2 ^ 44" by (simp add: pow2_def)
  with fl_abs_error [OF False] have "\<bar>fl q - q\<bar> \<le> 1 / 2 ^ 44" by (simp add: e_def)
  then show ?thesis by linarith
qed

section \<open>Properties of the histogram\<close>

lemma lit_values:
  "fl (299 / 1000) = 5386305154335113 / 18014398509481984"
  "fl (587 / 1000) = 2643612981266481 / 4503599627370496"
  "fl (114 / 1000) = 8214565720323785 / 72057594037927936"
  by (simp_all add: fl_eval cong: let_weak_cong if_weak_cong)

lemma lumaOf_bounds:
  assumes "r \<le> 255" and "g \<le> 255" and "b \<le> 255"
  shows "0 \<le> lumaOf r g b \<and> lumaOf r g b < 255 + 1 / 4"
proof -
  define c1 c2 c3 :: rat where "c1 = fl (299 / 1000)" and "c2 = fl (587 / 1000)" and "c3 = fl (114 / 1000)"
  have c: "c1 = 5386305154335113 / 18014398509481984" "c2 = 2643612981266481 / 4503599627370496"
    "c3 = 8214565720323785 / 72057594037927936"
    by (simp_all only: c1_def c2_def c3_def lit_values)
  have r: "(of_nat r :: rat) \<le> 255" "(0::rat) \<le> of_nat r" using assms(1) by simp_all
  have g: "(of_nat g :: rat) \<le> 255" "(0::rat) \<le> of_nat g" using assms(2) by simp_all
  have b: "(of_nat b :: rat) \<le> 255" "(0::rat) \<le> of_nat b" using assms(3) by simp_all
  define a1 a2 a3 where "a1 = fmul (of_nat r) c1" and "a2 = fmul (of_nat g) c2" and "a3 = fmul (of_nat b) c3"
  have p1: "0 \<le> of_nat r * c1" "of_nat r * c1 \<le> 255 * c1" using r by (simp_all add: c)
  have p2: "0 \<le> of_nat g * c2" "of_nat g * c2 \<le> 255 * c2" using g by (simp_all add: c)
  have p3: "0 \<le> of_nat b * c3" "of_nat b * c3 \<le> 255 * c3" using b by (simp_all add: c)
  have a1: "0 \<le> a1" "a1 \<le> 255 * c1 + 1 / 2 ^ 44"
    using fl_nonneg [OF p1(1)] fl_upper_256 [OF p1(1)] p1(2) by (simp_all add: a1_def fmul_def c)
  have a2: "0 \<le> a2" "a2 \<le> 255 * c2 + 1 / 2 ^ 44"
    using fl_nonneg [OF p2(1)] fl_upper_256 [OF p2(1)] p2(2) by (simp_all add: a2_def fmul_def c)
  have a3: "0 \<le> a3" "a3 \<le> 255 * c3 + 1 / 2 ^ 44"
    using fl_nonneg [OF p3(1)] fl_upper_256 [OF p3(1)] p3(2) by (simp_all add: a3_def fmul_def c)
  define s1 where "s1 = fadd a1 a2"
  have s1a: "0 \<le> a1 + a2" "a1 + a2 \<le> 256" using a1 a2 by (simp_all add: c)
  have s1: "0 \<le> s1" "s1 \<le> a1 + a2 + 1 / 2 ^ 44"
    using fl_nonneg [OF s1a(1)] fl_upper_256 [OF s1a] by (simp_all add: s1_def fadd_def)
  have s2a: "0 \<le> s1 + a3" "s1 + a3 \<le> 256" using s1 a1 a2 a3 by (simp_all add: c)
  have s2: "0 \<le> fadd s1 a3" "fadd s1 a3 \<le> s1 + a3 + 1 / 2 ^ 44"
    using fl_nonneg [OF s2a(1)] fl_upper_256 [OF s2a] by (simp_all add: fadd_def)
  have "lumaOf r g b = fadd s1 a3"
    by (simp add: lumaOf_def s1_def a1_def a2_def a3_def c1_def c2_def c3_def)
  moreover have "fadd s1 a3 < 255 + 1 / 4" using s2 s1 a1 a2 a3 by (simp add: c)
  ultimately show ?thesis using s2(1) by simp
qed

lemma luma_index:
  assumes "r \<le> 255" and "g \<le> 255" and "b \<le> 255"
  shows "nat (mathRound (lumaOf r g b)) < 256"
proof -
  from lumaOf_bounds [OF assms] have "lumaOf r g b + 1 / 2 < 256" by simp
  then have "\<lfloor>lumaOf r g b + 1 / 2\<rfloor> < 256" by (simp add: floor_less_iff)
  then show ?thesis unfolding mathRound_def by linarith
qed

lemma length_uniform: "length (concat (replicate n [r, g, b, a])) = 4 * n"
  by (induction n) simp_all

lemma nth_uniform:
  "k < n \<Longrightarrow> concat (replicate n [r, g, b, a]) ! (4 * k) = r \<and>
     concat (replicate n [r, g, b, a]) ! (4 * k + 1) = g \<and>
     concat (replicate n [r, g, b, a]) ! (4 * k + 2) = b \<and>
     concat (replicate n [r, g, b, a]) ! (4 * k + 3) = a"
proof (induction n arbitrary: k)
  case 0
  then show ?case by simp
next
  case (Suc n)
  show ?case
  proof (cases k)
    case 0
    then show ?thesis by simp
  next
    case (Suc j)
    with Suc.prems have "j < n" by simp
    from Suc.IH [OF this] show ?thesis
      unfolding \<open>k = Suc j\<close> by (simp add: nth_Cons' add.commute)
  qed
qed

lemma spike_0: "spike i 0 = replicate 256 0"
  by (cases "i < 256") (simp_all add: spike_def list_eq_iff_nth_eq nth_list_update)

lemma increment_spike:
  assumes "i < 256" and "k + 1 < 2 ^ 53"
  shows "increment (spike i (of_nat k)) i = spike i (of_nat (k + 1))"
proof -
  have "fadd (of_nat k) 1 = fl (of_nat (k + 1))" by (simp add: fadd_def add.commute)
  also have "\<dots> = of_nat (k + 1)" using assms(2) by (rule fl_of_nat)
  finally show ?thesis using assms(1) by (simp add: increment_def spike_def)
qed

lemma histogram_fold_uniform:
  assumes "r \<le> 255" and "g \<le> 255" and "b \<le> 255" and "n < 2 ^ 53"
  shows "m \<le> n \<Longrightarrow>
    fold (histogramStep (concat (replicate n [r, g, b, a]))) (map (\<lambda>k. 4 * k) [0..<m])
      \<lparr>hist_rgb = replicate 256 0, hist_red = replicate 256 0,
       hist_green = replicate 256 0, hist_blue = replicate 256 0\<rparr>
    = \<lparr>hist_rgb = spike (nat (mathRound (lumaOf r g b))) (of_nat m), hist_red = spike r (of_nat m),
       hist_green = spike g (of_nat m), hist_blue = spike b (of_nat m)\<rparr>"
proof (induction m)
  case 0
  then show ?case by (simp add: spike_0)
next
  case (Suc m)
  then have m: "m < n" "m \<le> n" by simp_all
  have small: "m + 1 < 2 ^ 53" using m(1) assms(4) by simp
  note rd = nth_uniform [OF m(1), of r g b a]
  have idx: "nat (mathRound (lumaOf r g b)) < 256" "r < 256" "g < 256" "b < 256"
    using luma_index [OF assms(1-3)] assms(1-3) by simp_all
  show ?case
    using Suc.IH [OF m(2)] rd idx small
    by (simp add: histogramStep_def Let_def increment_spike)
qed

lemma maxOf_spike:
  assumes "i < 256" and "0 \<le> v"
  shows "maxOf (spike i v) = v"
proof -
  have ne: "spike i v \<noteq> []" by (auto simp add: spike_def)
  then have "maxOf (spike i v) = Max (set (spike i v))"
    unfolding maxOf_def using Max.set_eq_fold [of "hd (spike i v)" "tl (spike i v)"] by simp
  also have "\<dots> = v"
  proof (rule Max_eqI)
    show "finite (set (spike i v))" by simp
    show "v \<in> set (spike i v)" using assms(1) by (simp add: spike_def set_update_memI)
    show "y \<le> v" if "y \<in> set (spike i v)" for y
    proof -
      from that have "y \<in> insert v (set (replicate 256 0))"
        unfolding spike_def using set_update_subset_insert by fast
      then show ?thesis using assms(2) by auto
    qed
  qed
  finally show ?thesis .
qed

lemma normalize_spike:
  assumes "i < 256" and "0 < v"
  shows "normalize (spike i v) = spike i (fmul v (fdiv 255 v))"
proof -
  have "maxOf (spike i v) = v" using assms by (simp add: maxOf_spike)
  then show ?thesis
    using assms(2) by (simp add: normalize_def Let_def spike_def map_update fmul_def fl_0)
qed

lemma normalize_zeros: "normalize (replicate 256 0) = replicate 256 0"
  using maxOf_spike [of 0 0] by (simp add: normalize_def Let_def spike_0)

lemma pow2_small: "pow2 (- 1074) \<le> 1 / 2 ^ 53"
proof -
  have "pow2 (- 1074) \<le> pow2 (- 53)" by (rule pow2_mono) simp
  then show ?thesis by (simp add: pow2_def)
qed

lemma peak_positive:
  assumes "1 \<le> n" and "n < 2 ^ 53"
  shows "0 < peak n"
proof -
  define N :: rat where "N = of_nat n"
  have N: "1 \<le> N" "N < 2 ^ 53"
  proof -
    show "1 \<le> N" using assms(1) by (simp add: N_def)
    have "(of_nat n :: rat) < of_nat (2 ^ 53)" using assms(2) by (simp only: of_nat_less_iff)
    then show "N < 2 ^ 53" by (simp add: N_def)
  qed
  have "1 / 2 ^ 53 \<le> 255 / N" using N by (simp add: field_simps)
  with pow2_small have "pow2 (- 1074) \<le> 255 / N" by linarith
  from fl_lower [OF this] have s: "255 / N / 2 \<le> fdiv 255 N" by (simp add: fdiv_def)
  have "N * (255 / N / 2) \<le> N * fdiv 255 N" using s N(1) by (intro mult_left_mono) simp_all
  moreover have "N * (255 / N / 2) = 255 / 2" using N(1) by simp
  ultimately have "255 / 2 \<le> N * fdiv 255 N" by simp
  moreover have "pow2 (- 1074) \<le> 255 / 2" using pow2_small by simp
  ultimately have "pow2 (- 1074) \<le> N * fdiv 255 N" by linarith
  from fl_pos [OF this] show ?thesis by (simp add: peak_def fmul_def N_def)
qed

lemma calculateHistogram_uniform:
  assumes "r \<le> 255" and "g \<le> 255" and "b \<le> 255" and "1 \<le> w * h" and "w * h < 2 ^ 53"
  shows "calculateHistogram (uniformImage w h r g b a) =
     \<lparr>hist_rgb = spike (nat (mathRound (lumaOf r g b))) (peak (w * h)), hist_red = spike r (peak (w * h)),
      hist_green = spike g (peak (w * h)), hist_blue = spike b (peak (w * h))\<rparr>"
proof -
  have idx: "nat (mathRound (lumaOf r g b)) < 256" "r < 256" "g < 256" "b < 256"
    using luma_index [OF assms(1-3)] assms(1-3) by simp_all
  have pos: "(0::rat) < of_nat (w * h)" using assms(4) by simp
  show ?thesis
    using histogram_fold_uniform [OF assms(1-3) assms(5), of "w * h" a] idx pos
    by (simp add: calculateHistogram_def uniformImage_def pixelOffsets_def length_uniform Let_def
        normalize_spike peak_def del: of_nat_mult)
qed

lemma calculateHistogram_empty:
  "calculateHistogram \<lparr>width = w, height = h, data = []\<rparr> =
     \<lparr>hist_rgb = replicate 256 0, hist_red = replicate 256 0,
      hist_green = replicate 256 0, hist_blue = replicate 256 0\<rparr>"
  by (simp add: calculateHistogram_def pixelOffsets_def Let_def normalize_zeros)

lemma spike_nonzero: "i < 256 \<Longrightarrow> v \<noteq> 0 \<Longrightarrow> spike i v \<noteq> replicate 256 0"
proof
  assume "i < 256" "v \<noteq> 0" "spike i v = replicate 256 0"
  then have "spike i v ! i = replicate 256 0 ! i" by simp
  with \<open>i < 256\<close> \<open>v \<noteq> 0\<close> show False by (simp add: spike_def)
qed

lemma peak_near:
  assumes "1 \<le> n" and "n < 2 ^ 53"
  shows "\<bar>peak n - 255\<bar> \<le> 1 / 2 ^ 44"
proof -
  define N :: rat where "N = of_nat n"
  have N: "1 \<le> N" "N < 2 ^ 53"
  proof -
    show "1 \<le> N" using assms(1) by (simp add: N_def)
    have "(of_nat n :: rat) < of_nat (2 ^ 53)" using assms(2) by (simp only: of_nat_less_iff)
    then show "N < 2 ^ 53" by (simp add: N_def)
  qed
  define s where "s = fdiv 255 N"
  have small: "pow2 (- 1022) \<le> 1 / 2 ^ 53"
  proof -
    have "pow2 (- 1022) \<le> pow2 (- 53)" by (rule pow2_mono) simp
    then show ?thesis by (simp add: pow2_def)
  qed
  have q1: "1 / 2 ^ 53 \<le> 255 / N" using N by (simp add: field_simps)
  then have "pow2 (- 1022) \<le> \<bar>255 / N\<bar>" using small by linarith
  from fl_rel_error [OF this] have "\<bar>s - 255 / N\<bar> \<le> 255 / N / 2 ^ 53"
    using N(1) by (simp add: s_def fdiv_def)
  then have "\<bar>s - 255 / N\<bar> * N \<le> 255 / N / 2 ^ 53 * N"
    using N(1) by (intro mult_right_mono) simp_all
  moreover have "\<bar>s - 255 / N\<bar> * N = \<bar>N * s - 255\<bar>"
  proof -
    have "\<bar>s - 255 / N\<bar> * N = \<bar>(s - 255 / N) * N\<bar>" using N(1) by (simp add: abs_mult)
    also have "(s - 255 / N) * N = N * s - 255" using N(1) by (simp add: algebra_simps)
    finally show ?thesis .
  qed
  moreover have "255 / N / 2 ^ 53 * N = 255 / 2 ^ 53" using N(1) by simp
  ultimately have e1: "\<bar>N * s - 255\<bar> \<le> 255 / 2 ^ 53" by simp
  have "(255::rat) / 2 ^ 53 \<le> 1" by simp
  with e1 have b1: "254 \<le> N * s" "N * s \<le> 256" by linarith+
  have "pow2 (- 1022) \<le> pow2 0" by (rule pow2_mono) simp
  then have "pow2 (- 1022) \<le> \<bar>N * s\<bar>" using b1(1) by (simp add: pow2_0)
  from fl_rel_error [OF this] have "\<bar>fl (N * s) - N * s\<bar> \<le> \<bar>N * s\<bar> / 2 ^ 53" .
  also have "\<dots> \<le> 256 / 2 ^ 53" using b1 by (simp add: divide_right_mono)
  finally have e2: "\<bar>fl (N * s) - N * s\<bar> \<le> 256 / 2 ^ 53" .
  have "\<bar>fl (N * s) - 255\<bar> \<le> \<bar>fl (N * s) - N * s\<bar> + \<bar>N * s - 255\<bar>" by simp
  with e1 e2 have "\<bar>fl (N * s) - 255\<bar> \<le> 256 / 2 ^ 53 + 255 / 2 ^ 53" by linarith
  also have "\<dots> \<le> 1 / 2 ^ 44" by simp
  finally show ?thesis by (simp add: peak_def fmul_def s_def N_def)
qed

section \<open>Properties of the per-pixel loop\<close>

lemma pixel_fold:
  "j \<le> length d div 4 \<Longrightarrow>
     length (fold (pixelStep f) (map (\<lambda>k. 4 * k) [0..<j]) d) = length d \<and>
     (\<forall>i < length d. fold (pixelStep f) (map (\<lambda>k. 4 * k) [0..<j]) d ! i
        = (if i < 4 * j then pixelOut f d i else d ! i))"
proof (induction j)
  case 0
  then show ?case by simp
next
  case (Suc j)
  define D where "D = fold (pixelStep f) (map (\<lambda>k. 4 * k) [0..<j]) d"
  from Suc have len: "length D = length d"
    and ih: "\<And>i. i < length d \<Longrightarrow> D ! i = (if i < 4 * j then pixelOut f d i else d ! i)"
    by (simp_all add: D_def)
  have inb: "4 * j + 3 < length d" using Suc.prems by simp
  have rd: "D ! (4 * j) = d ! (4 * j)" "D ! (4 * j + 1) = d ! (4 * j + 1)" "D ! (4 * j + 2) = d ! (4 * j + 2)"
    using ih inb by simp_all
  obtain r g b where fj: "f j (d ! (4 * j), d ! (4 * j + 1), d ! (4 * j + 2)) = (r, g, b)"
    by (cases "f j (d ! (4 * j), d ! (4 * j + 1), d ! (4 * j + 2))")
  have step: "fold (pixelStep f) (map (\<lambda>k. 4 * k) [0..<Suc j]) d
      = D[4 * j := r, 4 * j + 1 := g, 4 * j + 2 := b]"
    using rd fj by (simp add: D_def [symmetric] pixelStep_def)
  have out: "pixelOut f d i = (if i = 4 * j then r else if i = 4 * j + 1 then g
      else if i = 4 * j + 2 then b else d ! i)" if "4 * j \<le> i" "i < 4 * j + 4" for i
  proof -
    define c where "c = i - 4 * j"
    from that have c: "i = 4 * j + c" "c < 4" by (simp_all add: c_def)
    have dv: "i div 4 = j" and md: "i mod 4 = c" using c by simp_all
    from c(2) have "c = 0 \<or> c = 1 \<or> c = 2 \<or> c = 3" by auto
    then show ?thesis unfolding pixelOut_def dv md fj using c(1) by auto
  qed
  show ?case
  proof (intro conjI allI impI)
    show "length (fold (pixelStep f) (map (\<lambda>k. 4 * k) [0..<Suc j]) d) = length d"
      unfolding step by (simp add: len)
  next
    fix i assume i: "i < length d"
    show "fold (pixelStep f) (map (\<lambda>k. 4 * k) [0..<Suc j]) d ! i
        = (if i < 4 * Suc j then pixelOut f d i else d ! i)"
    proof (cases "i < 4 * j")
      case True
      then show ?thesis unfolding step using ih [OF i] i len by (simp add: nth_list_update)
    next
      case False
      show ?thesis
      proof (cases "i < 4 * j + 4")
        case True
        with False out [of i] show ?thesis
          unfolding step using ih [OF i] i len by (auto simp add: nth_list_update)
      next
        case False
        then show ?thesis unfolding step using ih [OF i] i len by (simp add: nth_list_update)
      qed
    qed
  qed
qed

lemma forEachPixel_nth:
  assumes "i < 4 * (length d div 4)"
  shows "forEachPixel f d ! i = pixelOut f d i"
proof -
  have "i < length d" using assms by simp
  with pixel_fold [of "length d div 4" d f] assms show ?thesis
    by (simp add: forEachPixel_def pixelOffsets_def)
qed

lemma length_forEachPixel: "length (forEachPixel f d) = length d"
  using pixel_fold [of "length d div 4" d f] by (simp add: forEachPixel_def pixelOffsets_def)

lemma forEachPixel_rest:
  assumes "4 * (length d div 4) \<le> i" and "i < length d"
  shows "forEachPixel f d ! i = d ! i"
  using pixel_fold [of "length d div 4" d f] assms by (simp add: forEachPixel_def pixelOffsets_def)

section \<open>Properties of the curve tables\<close>

text \<open>
  \<^verbatim>\<open>pointIndex\<close> only moves forward while \<open>i\<close> grows, so its value at \<open>i\<close> does not
  depend on where the scan for the earlier entries had stopped: it is \<open>segmentOf x n i\<close>.
\<close>

lemma advance_compose:
  "j \<le> i \<Longrightarrow> advance x n i (advance x n j p) = advance x n i p"
proof (induction x n j p rule: advance.induct)
  case (1 x n j p)
  show ?case
  proof (cases "p + 2 < n \<and> x ! (p + 1) < j")
    case True
    then have "advance x n j p = advance x n j (Suc p)" by (subst advance.simps) simp
    moreover from True "1.prems" have "p + 2 < n \<and> x ! (p + 1) < i" by auto
    then have "advance x n i p = advance x n i (Suc p)" by (subst advance.simps) simp
    ultimately show ?thesis using "1.IH" [OF True "1.prems"] by simp
  next
    case False
    then have "advance x n j p = p" by (subst advance.simps) auto
    then show ?thesis by simp
  qed
qed

lemma lut_fold:
  assumes "length L = 256"
  shows "k \<le> 256 \<Longrightarrow>
    fst (fold (lutStep x y m dx n) [0..<k] (0, L)) = (if k = 0 then 0 else segmentOf x n (k - 1)) \<and>
    length (snd (fold (lutStep x y m dx n) [0..<k] (0, L))) = 256 \<and>
    (\<forall>i<k. snd (fold (lutStep x y m dx n) [0..<k] (0, L)) ! i
        = lutValue x y m dx (segmentOf x n i) (of_nat i))"
proof (induction k)
  case 0
  then show ?case using assms by simp
next
  case (Suc k)
  define st where "st = fold (lutStep x y m dx n) [0..<k] (0, L)"
  from Suc have ih: "fst st = (if k = 0 then 0 else segmentOf x n (k - 1))" "length (snd st) = 256"
    "\<forall>i<k. snd st ! i = lutValue x y m dx (segmentOf x n i) (of_nat i)"
    by (simp_all add: st_def)
  have p: "advance x n (of_nat k) (fst st) = segmentOf x n k"
  proof (cases "k = 0")
    case True
    then show ?thesis using ih(1) by (simp add: segmentOf_def)
  next
    case False
    have "(of_nat (k - 1) :: rat) \<le> of_nat k" by simp
    from advance_compose [OF this, of x n 0] False ih(1) show ?thesis
      by (simp add: segmentOf_def)
  qed
  have step: "fold (lutStep x y m dx n) [0..<Suc k] (0, L) = lutStep x y m dx n k st"
    by (simp add: st_def)
  have k: "k < 256" using Suc.prems by simp
  show ?case
    unfolding step using ih(2,3) p k
    by (auto simp add: lutStep_def Let_def nth_list_update less_Suc_eq)
qed

lemma createLutFromPoints_nth:
  assumes "uniquePoints points = up" and "length up = n" and "2 \<le> n"
    and "map fst up = x" and "map snd up = y" and "segmentWidths x = dx"
    and "tangents n (segmentSlopes y dx) = m" and "i < 256"
  shows "createLutFromPoints points ! i =
     (if i = 255 then y ! (n - 1) else lutValue x y m dx (segmentOf x n i) (of_nat i))"
proof -
  define lut where "lut = snd (fold (lutStep x y m dx n) [0..<256] (0, replicate 256 0))"
  have n2: "length up \<noteq> 0" "length up \<noteq> 1" using assms(2,3) by auto
  have c: "createLutFromPoints points = lut[255 := y ! (n - 1)]"
    using n2 unfolding createLutFromPoints_def Let_def assms(1) assms(4,5,6) assms(2) assms(7) lut_def
    by simp
  from lut_fold [of "replicate 256 0" 256 x y m dx n]
  have l: "length lut = 256" "\<forall>i<256. lut ! i = lutValue x y m dx (segmentOf x n i) (of_nat i)"
    by (simp_all add: lut_def)
  show ?thesis unfolding c using l assms(8) by (simp add: nth_list_update)
qed

lemma segmentOf_2: "segmentOf x 2 i = 0"
  by (simp add: segmentOf_def advance.simps)

lemma segmentOf_3: "segmentOf x 3 i = (if x ! 1 < of_nat i then 1 else 0)"
  by (simp add: segmentOf_def advance.simps)

lemma replicate_2: "replicate 2 v = [v, v]"
  by (simp add: numeral_2_eq_2)

lemma replicate_3: "replicate 3 v = [v, v, v]"
  by (simp add: numeral_3_eq_3)

lemma list_update_Cons_numeral: "(v # vs)[numeral k := w] = v # vs[pred_numeral k := w]"
  by (simp add: numeral_eq_Suc)

lemmas lut_eval = segmentWidths_def widthAt_def segmentSlopes_def slopeAt_def initialTangents_def
  averageStep_def tangents_def limitStep_def fsqrt_def isqrt.simps isqrtStep_def roundMid_def eps7_def
  upt_rec_numeral upt_conv_Cons replicate_2 replicate_3 list_update_Cons_numeral

text \<open>The default curve \<open>[(0, 0), (255, 255)]\<close>.\<close>

lemma default_points: "uniquePoints [Point 0 0, Point 255 255] = [(0, 0), (255, 255)]"
  by (simp add: uniquePoints_def mapSet_def)

lemma default_widths: "segmentWidths [0, 255] = [255]"
  by (simp add: lut_eval fl_eval cong: let_weak_cong if_weak_cong)

lemma default_tangents: "tangents 2 (segmentSlopes [0, 255] [255]) = [1, 1]"
  by (simp add: lut_eval fl_eval cong: let_weak_cong if_weak_cong)

lemma default_lut_nth:
  assumes "i < 256"
  shows "createLutFromPoints [Point 0 0, Point 255 255] ! i =
     (if i = 255 then 255 else lutValue [0, 255] [0, 255] [1, 1] [255] 0 (of_nat i))"
  using createLutFromPoints_nth [OF default_points _ _ _ _ default_widths default_tangents assms]
  by (simp add: segmentOf_2)

text \<open>The curve \<open>[(0, 0), (128, 200), (255, 255)]\<close>.\<close>

lemma three_points:
  "uniquePoints [Point 0 0, Point 128 200, Point 255 255] = [(0, 0), (128, 200), (255, 255)]"
  by (simp add: uniquePoints_def mapSet_def)

lemma three_widths: "segmentWidths [0, 128, 255] = [128, 127]"
  by (simp add: lut_eval fl_eval cong: let_weak_cong if_weak_cong)

section \<open>Claims\<close>

text \<open>
  C6 says that for every non-empty uniform image the normalisation of each of the four
  histograms yields an all-zero array. It does not: at the 1 by 1 image of colour
  \<open>(10, 20, 30)\<close> the red histogram has the single count 1 at bin 10, its maximum is 1, not
  0, and the normalised array is 255 at bin 10.
\<close>

theorem histogram_uniform_counterexample:
  "hist_red (calculateHistogram \<lparr>width = 1, height = 1, data = [10, 20, 30, 255]\<rparr>)
     = (replicate 256 0)[10 := 255] \<and>
   (replicate 256 0)[10 := 255] \<noteq> replicate 256 (0::rat)"
proof -
  have "calculateHistogram (uniformImage 1 1 10 20 30 255) =
     \<lparr>hist_rgb = spike (nat (mathRound (lumaOf 10 20 30))) (peak (1 * 1)),
      hist_red = spike 10 (peak (1 * 1)), hist_green = spike 20 (peak (1 * 1)),
      hist_blue = spike 30 (peak (1 * 1))\<rparr>"
    by (rule calculateHistogram_uniform) simp_all
  moreover have "peak (1 * 1) = 255"
    by (simp add: peak_def fl_eval cong: let_weak_cong if_weak_cong)
  moreover have "spike 10 255 \<noteq> replicate 256 0"
    by (rule spike_nonzero) simp_all
  ultimately show ?thesis by (simp add: uniformImage_def spike_def)
qed

text \<open>
  C6 as amended. Normalisation leaves a histogram unchanged only when its maximum is 0,
  which happens for the image without pixels: then all four arrays are all zero. For a
  uniform image of \<open>w * h \<ge> 1\<close> pixels of colour \<open>(r, g, b)\<close>, each of the four
  normalised arrays is zero except at one bin (the luma for \<open>rgb\<close>, the channel value for
  \<open>red\<close>, \<open>green\<close> and \<open>blue\<close>), where it is \<^verbatim>\<open>n * (255 / n)\<close> for the pixel count
  \<open>n\<close>: a positive number, 255 up to rounding. No division by zero occurs.
\<close>

theorem histogram_uniform:
  assumes "r \<le> 255" and "g \<le> 255" and "b \<le> 255" and "1 \<le> w * h" and "w * h < 2 ^ 53"
  shows "calculateHistogram (uniformImage w h r g b a) =
           \<lparr>hist_rgb = spike (nat (mathRound (lumaOf r g b))) (peak (w * h)),
            hist_red = spike r (peak (w * h)),
            hist_green = spike g (peak (w * h)),
            hist_blue = spike b (peak (w * h))\<rparr> \<and>
         nat (mathRound (lumaOf r g b)) < 256 \<and>
         0 < peak (w * h) \<and> \<bar>peak (w * h) - 255\<bar> \<le> 1 / 2 ^ 44 \<and>
         calculateHistogram \<lparr>width = 0, height = 0, data = []\<rparr> =
           \<lparr>hist_rgb = replicate 256 0, hist_red = replicate 256 0,
            hist_green = replicate 256 0, hist_blue = replicate 256 0\<rparr>"
  using calculateHistogram_uniform [OF assms, of a] luma_index [OF assms(1-3)]
    peak_positive [OF assms(4,5)] peak_near [OF assms(4,5)] calculateHistogram_empty [of 0 0]
  by simp

theorem histogram_uniform_witness:
  "calculateHistogram (uniformImage 2 1 10 20 30 255) =
     \<lparr>hist_rgb = spike 18 255, hist_red = spike 10 255,
      hist_green = spike 20 255, hist_blue = spike 30 255\<rparr>"
proof -
  have luma: "nat (mathRound (lumaOf 10 20 30)) = 18"
    by (simp add: mathRound_def lumaOf_def fl_eval cong: let_weak_cong if_weak_cong)
  have peak: "peak (2 * 1) = 255"
    by (simp add: peak_def fl_eval cong: let_weak_cong if_weak_cong)
  have hyps: "(10::nat) \<le> 255" "(20::nat) \<le> 255" "(30::nat) \<le> 255" "(1::nat) \<le> 2 * 1"
    "(2::nat) * 1 < 2 ^ 53" by simp_all
  from histogram_uniform [OF hyps, of 255] show ?thesis by (simp only: luma peak)
qed

text \<open>
  C10. \<^verbatim>\<open>boxBlur\<close> is total for every image of width and height at least 1 and every
  radius \<open>r \<ge> 0\<close>, also when the radius is at least the width or height: every window
  of the horizontal and of the vertical pass holds at least its centre sample, so its
  sample count is at least 1, none of its four divisions is a division by zero, and the
  function returns the blurred buffer.
\<close>

theorem boxBlur_total:
  assumes "1 \<le> w" and "1 \<le> h" and "0 \<le> r" and "length dstData \<le> length srcData"
  shows "(\<forall>y \<in> {0..<h}. \<forall>x \<in> {0..<w}.
            1 \<le> sampleCount (hWindow t1 w r y x) \<and> divisionsDefined (hWindow t1 w r y x) \<and>
            1 \<le> sampleCount (vWindow t2 w h r x y) \<and> divisionsDefined (vWindow t2 w h r x y)) \<and>
         (\<exists>out. boxBlur srcData dstData w h r = Inr out \<and> length out = length dstData)"
proof
  show "\<forall>y \<in> {0..<h}. \<forall>x \<in> {0..<w}.
            1 \<le> sampleCount (hWindow t1 w r y x) \<and> divisionsDefined (hWindow t1 w r y x) \<and>
            1 \<le> sampleCount (vWindow t2 w h r x y) \<and> divisionsDefined (vWindow t2 w h r x y)"
  proof (intro ballI)
    fix y x assume "y \<in> {0..<h}" and "x \<in> {0..<w}"
    then have x: "0 \<le> x" "x < w" and y: "0 \<le> y" "y < h" by simp_all
    note hWindow_count [OF assms(3) x, of t1 y] vWindow_count [OF assms(3) y, of t2 w x]
    then show "1 \<le> sampleCount (hWindow t1 w r y x) \<and> divisionsDefined (hWindow t1 w r y x) \<and>
            1 \<le> sampleCount (vWindow t2 w h r x y) \<and> divisionsDefined (vWindow t2 w h r x y)"
      by (simp add: divisionsDefined_count)
  qed
next
  show "\<exists>out. boxBlur srcData dstData w h r = Inr out \<and> length out = length dstData"
    using assms(4)
    by (simp add: boxBlur_def typedArraySet_def Let_def length_horizontalPass length_verticalPass)
qed

text \<open>
  The theorem at a 2 by 1 image and radius 3, which exceeds both dimensions; the blurred
  buffer is the average of the two pixels, a tie rounding to the even value.
\<close>

theorem boxBlur_total_witness:
  "1 \<le> sampleCount (hWindow [10, 20, 30, 40, 11, 21, 32, 255] 2 3 0 1) \<and>
   divisionsDefined (vWindow [10, 20, 31, 148, 10, 20, 31, 148] 2 1 3 1 0) \<and>
   boxBlur [10, 20, 30, 40, 11, 21, 32, 255] [0, 0, 0, 0, 0, 0, 0, 0] 2 1 3
     = Inr [10, 20, 31, 148, 10, 20, 31, 148]"
proof -
  have hyps: "(1::int) \<le> 2" "(1::int) \<le> 1" "(0::int) \<le> 3"
    "length [0, 0, 0, 0, 0, 0, 0, 0::nat] \<le> length [10, 20, 30, 40, 11, 21, 32, 255::nat]"
    by simp_all
  have "boxBlur [10, 20, 30, 40, 11, 21, 32, 255] [0, 0, 0, 0, 0, 0, 0, 0] 2 1 3
      = Inr [10, 20, 31, 148, 10, 20, 31, 148]"
    by (simp add: boxBlur_eval fl_eval cong: let_weak_cong if_weak_cong)
  with boxBlur_total [OF hyps, where ?t1.0 = "[10, 20, 30, 40, 11, 21, 32, 255]"
      and ?t2.0 = "[10, 20, 31, 148, 10, 20, 31, 148]"]
  show ?thesis by simp
qed

end
